theory Spec2Isabelle
  imports Main "HOL-Library.Word"
begin

section \<open>The transaction log domain (searchlib/transactionlog/domain.cpp)\<close>

text \<open>
  A shallow embedding of \<^verbatim>\<open>search::transactionlog::Domain\<close>. The member
  functions of \<^verbatim>\<open>domain.cpp\<close> are translated one by one; each takes the domain's
  state and returns the updated one. The classes \<^verbatim>\<open>Packet\<close>, \<^verbatim>\<open>DomainPart\<close>
  and \<^verbatim>\<open>Session\<close> are collaborators of \<^verbatim>\<open>domain.cpp\<close> whose sources are not
  part of the code at hand; they are modelled from the specification, and each such
  definition says so.
\<close>

subsection \<open>Serial numbers, ranges and packets\<close>

type_synonym SerialNum = "64 word"

text \<open>Sizes in bytes (\<^verbatim>\<open>size_t\<close>) and entry counts; nothing below depends on their overflow.\<close>

type_synonym bytes = nat

text \<open>Readings of the steady clock and durations, in clock ticks.\<close>

type_synonym time = int

text \<open>A completion callback (\<^verbatim>\<open>Writer::DoneCallback\<close>), identified by a number.\<close>

type_synonym callback = nat

record SerialNumRange =
  r_from :: SerialNum
  r_to :: SerialNum

text \<open>
  Modelled from the spec: the class \<^verbatim>\<open>Packet\<close> and its \<^verbatim>\<open>Entry\<close> (absent from the
  sources). A packet is ``an ordered batch of (serial, payload) records'' with a range and
  ``a measurable byte size''. An entry carries its serial and the number of bytes of its
  serialized form; the payload itself plays no part in the domain's decisions.
\<close>

record Entry =
  e_serial :: SerialNum
  e_bytes :: bytes

record Packet =
  p_range :: SerialNumRange
  p_entries :: "Entry list"

text \<open>Modelled from the spec: the packet a fresh chunk holds (\<^verbatim>\<open>Packet(size_t(-1))\<close>), with no record.\<close>

definition Packet_new :: Packet where
  "Packet_new = \<lparr>p_range = \<lparr>r_from = 0, r_to = 0\<rparr>, p_entries = []\<rparr>"

text \<open>Modelled from the spec: \<^verbatim>\<open>Packet::empty\<close>, \<^verbatim>\<open>Packet::size\<close> and \<^verbatim>\<open>Packet::sizeBytes\<close>.\<close>

definition Packet_empty :: "Packet \<Rightarrow> bool" where
  "Packet_empty p = (p_entries p = [])"

definition Packet_size :: "Packet \<Rightarrow> nat" where
  "Packet_size p = length (p_entries p)"

definition Packet_sizeBytes :: "Packet \<Rightarrow> bytes" where
  "Packet_sizeBytes p = sum_list (map e_bytes (p_entries p))"

text \<open>
  Modelled from the spec: \<^verbatim>\<open>Packet::merge\<close>, ``two packets merge preserving serial
  order'': the records of the second packet follow those of the first, the range ends where
  the second packet's range ends, and it starts where the first non-empty contribution
  starts.
\<close>

definition Packet_merge :: "Packet \<Rightarrow> Packet \<Rightarrow> Packet" where
  "Packet_merge p q =
     \<lparr>p_range = \<lparr>r_from = (if p_entries p = [] then r_from (p_range q) else r_from (p_range p)),
                 r_to = r_to (p_range q)\<rparr>,
      p_entries = p_entries p @ p_entries q\<rparr>"

subsection \<open>Chunk\<close>

record Chunk =
  c_data :: Packet
  c_callBacks :: "callback list"
  c_firstArrivalTime :: time

text \<open>\<^verbatim>\<open>Chunk::Chunk()\<close>: an empty packet, no callback, a default time stamp.\<close>

definition Chunk_new :: Chunk where
  "Chunk_new = \<lparr>c_data = Packet_new, c_callBacks = [], c_firstArrivalTime = 0\<rparr>"

text \<open>\<^verbatim>\<open>Chunk::add\<close>; \<open>now\<close> is the reading of the steady clock the call takes.\<close>

definition Chunk_add :: "time \<Rightarrow> Packet \<Rightarrow> callback \<Rightarrow> Chunk \<Rightarrow> Chunk" where
  "Chunk_add now packet onDone c =
     \<lparr>c_data = Packet_merge (c_data c) packet,
      c_callBacks = c_callBacks c @ [onDone],
      c_firstArrivalTime = (if c_callBacks c = [] then now else c_firstArrivalTime c)\<rparr>"

text \<open>\<^verbatim>\<open>Chunk::age\<close>.\<close>

definition Chunk_age :: "time \<Rightarrow> Chunk \<Rightarrow> time" where
  "Chunk_age now c = (if c_callBacks c = [] then 0 else now - c_firstArrivalTime c)"

text \<open>\<^verbatim>\<open>Chunk::sizeBytes\<close> and \<^verbatim>\<open>Chunk::getPacket\<close> read the accumulated packet.\<close>

definition Chunk_sizeBytes :: "Chunk \<Rightarrow> bytes" where
  "Chunk_sizeBytes c = Packet_sizeBytes (c_data c)"

subsection \<open>Segments (DomainPart)\<close>

text \<open>
  Modelled from the spec: the class \<^verbatim>\<open>DomainPart\<close> (the spec's Segment, absent from the
  sources), through the contract the spec gives: a range, a number of records, a byte size,
  the last synced serial, whether it is closed, and whether the file system lets its
  backing file be deleted.
\<close>

record DomainPart =
  dp_range :: SerialNumRange
  dp_size :: nat
  dp_byteSize :: bytes
  dp_synced :: SerialNum
  dp_closed :: bool
  dp_deletable :: bool

text \<open>Modelled from the spec: opening a new, empty segment ``starting at'' a serial.\<close>

definition DomainPart_new :: "SerialNum \<Rightarrow> DomainPart" where
  "DomainPart_new s =
     \<lparr>dp_range = \<lparr>r_from = s, r_to = s\<rparr>, dp_size = 0, dp_byteSize = 0, dp_synced = 0,
      dp_closed = False, dp_deletable = True\<rparr>"

text \<open>
  Modelled from the spec: \<^verbatim>\<open>DomainPart::commit(serial, packet)\<close> appends the packet:
  the segment's range then ends where the packet's range ends, and its counts grow by the
  packet's. The contract gives no behaviour for a commit on a closed segment; the model
  appends all the same.
\<close>

definition DomainPart_commit :: "SerialNum \<Rightarrow> Packet \<Rightarrow> DomainPart \<Rightarrow> DomainPart" where
  "DomainPart_commit firstSerial packet dp =
     dp\<lparr>dp_range := \<lparr>r_from = r_from (dp_range dp), r_to = r_to (p_range packet)\<rparr>,
        dp_size := dp_size dp + Packet_size packet,
        dp_byteSize := dp_byteSize dp + Packet_sizeBytes packet\<rparr>"

text \<open>Modelled from the spec: \<^verbatim>\<open>DomainPart::sync\<close> makes everything written durable.\<close>

definition DomainPart_sync :: "DomainPart \<Rightarrow> DomainPart" where
  "DomainPart_sync dp = dp\<lparr>dp_synced := r_to (dp_range dp)\<rparr>"

text \<open>Modelled from the spec: \<^verbatim>\<open>DomainPart::close\<close>.\<close>

definition DomainPart_close :: "DomainPart \<Rightarrow> DomainPart" where
  "DomainPart_close dp = dp\<lparr>dp_closed := True\<rparr>"

text \<open>
  Modelled from the spec: \<^verbatim>\<open>DomainPart::erase(to)\<close> ``shrinks/deletes the backing
  store'': a segment that ends below \<open>to\<close> is deleted as a whole (the result tells whether
  the file system did it); otherwise the segment is truncated ``down to \<open>to\<close>'': what lies
  below \<open>to\<close> goes, so a range that started below \<open>to\<close> then starts at \<open>to\<close>, and a
  range that starts at or above \<open>to\<close> has nothing to lose and stays as it is. The range
  never grows.
\<close>

definition DomainPart_erase :: "SerialNum \<Rightarrow> DomainPart \<Rightarrow> bool \<times> DomainPart" where
  "DomainPart_erase t dp =
     (if r_to (dp_range dp) < t then (dp_deletable dp, dp)
      else (True, dp\<lparr>dp_range := \<lparr>r_from = max (r_from (dp_range dp)) t,
                                    r_to = r_to (dp_range dp)\<rparr>\<rparr>))"

subsection \<open>Sessions, configuration, the domain's state\<close>

text \<open>
  Modelled from the spec: the class \<^verbatim>\<open>Session\<close> (absent from the sources), as far as
  the domain reads and writes it.
\<close>

record Session =
  ses_range :: SerialNumRange
  ses_startTime :: time
  ses_inSync :: bool
  ses_finished :: bool
  ses_visitRunning :: bool

text \<open>\<^verbatim>\<open>DomainConfig\<close>; the encoding and the compression level are passed through to
  the segments and are left out.\<close>

record DomainConfig =
  chunkSizeLimit :: bytes
  chunkAgeLimit :: time
  partSizeLimit :: bytes
  fSyncOnCommit :: bool

text \<open>
  What the domain does to its collaborators, in the order it does it: the calls on
  segments, the directory syncs, the waits on the sync monitor and the release of a written
  chunk's callbacks.
\<close>

datatype Event =
    WaitPendingSync
  | TriggerSync SerialNum
  | PartSync SerialNum
  | PartClose SerialNum
  | PartOpen SerialNum
  | PartCommit SerialNum SerialNum
  | PartErase SerialNum SerialNum
  | DirSync
  | Release "callback list"

datatype error = RuntimeError | EmptyPartMap | EmptyChunk

text \<open>
  The state of a \<^verbatim>\<open>Domain\<close>. \<open>parts\<close> is the \<^verbatim>\<open>std::map\<close> from starting serial to
  segment, as the list of its entries in ascending key order; an iterator is an index into
  the list, \<^verbatim>\<open>end()\<close> being its length. \<open>sessions\<close> is the session map.
  \<open>singleCommiter\<close> is the queue of write tasks handed to the single-writer executor, oldest
  first, each holding its chunk. \<open>pendingSync\<close> is \<open>None\<close> when the flag
  \<^verbatim>\<open>_pendingSync\<close> is false, and \<open>Some k\<close> when it is true, \<open>k\<close> being the key
  of the segment the \<^verbatim>\<open>Sync\<close> task in flight holds. \<open>journal\<close> records the events.
\<close>

record Domain =
  config :: DomainConfig
  currentChunk :: Chunk
  lastSerial :: SerialNum
  parts :: "(SerialNum \<times> DomainPart) list"
  sessions :: "int \<rightharpoonup> Session"
  sessionId :: int
  pendingSync :: "SerialNum option"
  singleCommiter :: "Chunk list"
  journal :: "Event list"

text \<open>A domain at rest: a segment map, a last serial, no chunk under way, nothing queued.\<close>

definition Domain_at_rest :: "DomainConfig \<Rightarrow> (SerialNum \<times> DomainPart) list \<Rightarrow> SerialNum \<Rightarrow> Domain" where
  "Domain_at_rest cfg ps ls =
     \<lparr>config = cfg, currentChunk = Chunk_new, lastSerial = ls, parts = ps,
      sessions = Map.empty, sessionId = 1, pendingSync = None, singleCommiter = [],
      journal = []\<rparr>"

subsection \<open>The segment map\<close>

text \<open>\<^verbatim>\<open>_parts[k] = v\<close>: insert, or replace the entry of an equal key.\<close>

fun parts_put :: "SerialNum \<Rightarrow> DomainPart \<Rightarrow> (SerialNum \<times> DomainPart) list \<Rightarrow> (SerialNum \<times> DomainPart) list" where
  "parts_put k v [] = [(k, v)]"
| "parts_put k v ((k', v') # ps) =
     (if k < k' then (k, v) # (k', v') # ps
      else if k = k' then (k, v) # ps
      else (k', v') # parts_put k v ps)"

text \<open>A call through a shared pointer to the segment stored under key \<open>k\<close>.\<close>

definition parts_call :: "SerialNum \<Rightarrow> (DomainPart \<Rightarrow> DomainPart) \<Rightarrow> (SerialNum \<times> DomainPart) list \<Rightarrow> (SerialNum \<times> DomainPart) list" where
  "parts_call k f ps = map (\<lambda>(k', v). if k' = k then (k', f v) else (k', v)) ps"

text \<open>\<^verbatim>\<open>_parts.upper_bound(s)\<close>: the position of the first entry whose key is above \<open>s\<close>.\<close>

definition upper_bound :: "SerialNum \<Rightarrow> (SerialNum \<times> DomainPart) list \<Rightarrow> nat" where
  "upper_bound s ps = length (takeWhile (\<lambda>(k, v). k \<le> s) ps)"

subsection \<open>Read-only snapshots\<close>

definition Domain_begin :: "Domain \<Rightarrow> SerialNum" where
  "Domain_begin d = (case parts d of [] \<Rightarrow> 0 | (k, dp) # ps \<Rightarrow> r_from (dp_range dp))"

definition Domain_end :: "Domain \<Rightarrow> SerialNum" where
  "Domain_end d = (if parts d = [] then 0 else r_to (dp_range (snd (last (parts d)))))"

definition Domain_getSynced :: "Domain \<Rightarrow> SerialNum" where
  "Domain_getSynced d =
     (if parts d = [] then 0
      else let it = length (parts d) - 1;
               s = dp_synced (snd (parts d ! it))
           in if s = 0 \<and> it \<noteq> 0 then dp_synced (snd (parts d ! (it - 1))) else s)"

definition Domain_findPart :: "Domain \<Rightarrow> SerialNum \<Rightarrow> (SerialNum \<times> DomainPart) option" where
  "Domain_findPart d s =
     (let it = upper_bound s (parts d) in
      if parts d \<noteq> [] \<and> it \<noteq> 0 \<and> s < r_to (dp_range (snd (parts d ! (it - 1))))
      then Some (parts d ! (it - 1))
      else if it \<noteq> length (parts d) then Some (parts d ! it)
      else None)"

subsection \<open>Committing: from the producer to the single writer\<close>

text \<open>\<^verbatim>\<open>Domain::grabCurrentChunk\<close>: the chunk under way is taken, an empty one replaces it.\<close>

definition Domain_grabCurrentChunk :: "Domain \<Rightarrow> Chunk \<times> Domain" where
  "Domain_grabCurrentChunk d = (currentChunk d, d\<lparr>currentChunk := Chunk_new\<rparr>)"

text \<open>
  \<^verbatim>\<open>Domain::commitChunk\<close>: a chunk with a non-empty packet becomes a task of the
  single-writer executor (which runs \<^verbatim>\<open>doCommit\<close> on it later); any other chunk is
  dropped.
\<close>

definition Domain_commitChunk :: "Chunk \<Rightarrow> Domain \<Rightarrow> bool \<times> Domain" where
  "Domain_commitChunk chunk d =
     (if \<not> Packet_empty (c_data chunk)
      then (True, d\<lparr>singleCommiter := singleCommiter d @ [chunk]\<rparr>)
      else (False, d))"

text \<open>\<^verbatim>\<open>Domain::commitIfFull\<close>; the grabbed chunk is never a null pointer.\<close>

definition Domain_commitIfFull :: "Domain \<Rightarrow> Domain" where
  "Domain_commitIfFull d =
     (if Chunk_sizeBytes (currentChunk d) > chunkSizeLimit (config d)
      then (case Domain_grabCurrentChunk d of (completed, d') \<Rightarrow> snd (Domain_commitChunk completed d'))
      else d)"

text \<open>
  \<^verbatim>\<open>Domain::commit\<close>. The result is \<open>Some RuntimeError\<close> when the call throws, with
  the state the exception leaves behind, and \<open>None\<close> when it returns.
\<close>

definition Domain_commit :: "time \<Rightarrow> Packet \<Rightarrow> callback \<Rightarrow> Domain \<Rightarrow> error option \<times> Domain" where
  "Domain_commit now packet onDone d =
     (if lastSerial d \<ge> r_from (p_range packet) then (Some RuntimeError, d)
      else let d1 = d\<lparr>lastSerial := r_to (p_range packet)\<rparr>;
               d2 = d1\<lparr>currentChunk := Chunk_add now packet onDone (currentChunk d1)\<rparr>
           in (None, Domain_commitIfFull d2))"

text \<open>\<^verbatim>\<open>Domain::commitIfStale\<close>; \<open>now\<close> is the clock reading \<^verbatim>\<open>age()\<close> takes.\<close>

definition Domain_commitIfStale :: "time \<Rightarrow> Domain \<Rightarrow> bool \<times> Domain" where
  "Domain_commitIfStale now d =
     (if Chunk_age now (currentChunk d) > chunkAgeLimit (config d)
         \<and> \<not> Packet_empty (c_data (currentChunk d))
      then (case Domain_grabCurrentChunk d of (chunk, d') \<Rightarrow> Domain_commitChunk chunk d')
      else (False, d))"

subsection \<open>Syncing\<close>

text \<open>
  \<^verbatim>\<open>Sync::run\<close>, the task \<^verbatim>\<open>triggerSyncNow\<close> hands to the commit executor: it syncs
  the segment it holds, clears the flag and wakes the waiters.
\<close>

definition Sync_run :: "SerialNum \<Rightarrow> Domain \<Rightarrow> Domain" where
  "Sync_run k d =
     d\<lparr>parts := parts_call k DomainPart_sync (parts d), pendingSync := None,
       journal := journal d @ [PartSync k]\<rparr>"

text \<open>
  \<^verbatim>\<open>waitPendingSync\<close>: the caller blocks while the flag is set, that is, until the task
  in flight has run; when the wait returns, the task has run.
\<close>

definition waitPendingSync :: "Domain \<Rightarrow> Domain" where
  "waitPendingSync d =
     (let d' = d\<lparr>journal := journal d @ [WaitPendingSync]\<rparr>
      in case pendingSync d' of None \<Rightarrow> d' | Some k \<Rightarrow> Sync_run k d')"

text \<open>\<^verbatim>\<open>Domain::triggerSyncNow\<close>; it reads the last segment of the map, which must exist.\<close>

definition Domain_triggerSyncNow :: "Domain \<Rightarrow> error + Domain" where
  "Domain_triggerSyncNow d =
     (if pendingSync d = None
      then (if parts d = [] then Inl EmptyPartMap
            else Inr (d\<lparr>pendingSync := Some (fst (last (parts d))),
                        journal := journal d @ [TriggerSync (fst (last (parts d)))]\<rparr>))
      else Inr d)"

subsection \<open>The single writer\<close>

text \<open>\<^verbatim>\<open>Domain::cleanSessions\<close>: sessions in sync or finished leave the map.\<close>

definition Domain_cleanSessions :: "Domain \<Rightarrow> Domain" where
  "Domain_cleanSessions d =
     d\<lparr>sessions := (\<lambda>i. case sessions d i of
                           None \<Rightarrow> None
                         | Some s \<Rightarrow> if ses_inSync s then None
                                     else if ses_finished s then None else Some s)\<rparr>"

text \<open>
  The part of \<^verbatim>\<open>Domain::doCommit\<close> that rotates the segments: \<open>k\<close> is the key of the
  segment \<^verbatim>\<open>dp\<close> points to (the last one), \<open>serial\<close> the serial of the packet's first
  entry.
\<close>

definition Domain_rotate :: "SerialNum \<Rightarrow> SerialNum \<Rightarrow> Domain \<Rightarrow> error + Domain" where
  "Domain_rotate k serial d =
     (let d1 = waitPendingSync d in
      case Domain_triggerSyncNow d1 of
        Inl e \<Rightarrow> Inl e
      | Inr d2 \<Rightarrow>
          let d3 = waitPendingSync d2;
              d4 = d3\<lparr>parts := parts_call k DomainPart_close (parts d3),
                      journal := journal d3 @ [PartClose k]\<rparr>;
              d5 = d4\<lparr>parts := parts_put serial (DomainPart_new serial) (parts d4),
                      journal := journal d4 @ [PartOpen serial]\<rparr>
          in Inr (d5\<lparr>journal := journal d5 @ [DirSync]\<rparr>))"

text \<open>
  \<^verbatim>\<open>Domain::doCommit\<close>, the write task. Reading the last segment of an empty map, and
  deserializing the first entry of an empty packet, are errors. When the chunk is destroyed
  at the end, its callbacks are released.
\<close>

definition Domain_doCommit :: "Chunk \<Rightarrow> Domain \<Rightarrow> error + Domain" where
  "Domain_doCommit chunk d =
     (if parts d = [] then Inl EmptyPartMap
      else case p_entries (c_data chunk) of
        [] \<Rightarrow> Inl EmptyChunk
      | entry # es \<Rightarrow>
          (case (if dp_byteSize (snd (last (parts d))) > partSizeLimit (config d)
                 then Domain_rotate (fst (last (parts d))) (e_serial entry) d
                 else Inr d) of
             Inl e \<Rightarrow> Inl e
           | Inr d1 \<Rightarrow>
               let k = fst (last (parts d1));
                   d2 = d1\<lparr>parts := parts_call k (DomainPart_commit (e_serial entry) (c_data chunk)) (parts d1),
                           journal := journal d1 @ [PartCommit k (e_serial entry)]\<rparr>;
                   d3 = (if fSyncOnCommit (config d2)
                         then d2\<lparr>parts := parts_call k DomainPart_sync (parts d2),
                                 journal := journal d2 @ [PartSync k]\<rparr>
                         else d2);
                   d4 = Domain_cleanSessions d3
               in Inr (d4\<lparr>journal := journal d4 @ [Release (c_callBacks chunk)]\<rparr>)))"

text \<open>The single-writer executor runs its tasks one after the other, oldest first.\<close>

fun run_tasks :: "Chunk list \<Rightarrow> Domain \<Rightarrow> error + Domain" where
  "run_tasks [] d = Inr d"
| "run_tasks (chunk # chunks) d =
     (case Domain_doCommit chunk d of Inl e \<Rightarrow> Inl e | Inr d' \<Rightarrow> run_tasks chunks d')"

text \<open>\<^verbatim>\<open>_singleCommiter->sync()\<close>: the caller waits until every queued task has run.\<close>

definition singleCommiter_sync :: "Domain \<Rightarrow> error + Domain" where
  "singleCommiter_sync d = run_tasks (singleCommiter d) (d\<lparr>singleCommiter := []\<rparr>)"

text \<open>
  \<^verbatim>\<open>Domain::~Domain\<close>, in its two steps: the chunk under way is handed over, then the
  single writer is shut down and drained.
\<close>

definition Domain_destroy_handover :: "Domain \<Rightarrow> bool \<times> Domain" where
  "Domain_destroy_handover d =
     (case Domain_grabCurrentChunk d of (chunk, d') \<Rightarrow> Domain_commitChunk chunk d')"

definition Domain_destroy :: "Domain \<Rightarrow> error + Domain" where
  "Domain_destroy d = singleCommiter_sync (snd (Domain_destroy_handover d))"

subsection \<open>Pruning\<close>

text \<open>
  The loop of \<^verbatim>\<open>Domain::erase\<close>: while more than one segment is left and the first one
  ends below \<open>t\<close>, the first one leaves the map. \<^verbatim>\<open>retval && dp->erase(to)\<close> calls
  the segment's \<^verbatim>\<open>erase\<close> only while \<^verbatim>\<open>retval\<close> is still true.
\<close>

fun erase_loop :: "SerialNum \<Rightarrow> bool \<Rightarrow> (SerialNum \<times> DomainPart) list \<Rightarrow> Event list \<Rightarrow> bool \<times> (SerialNum \<times> DomainPart) list \<times> Event list" where
  "erase_loop t retval ((k, dp) # q # ps) j =
     (if r_to (dp_range dp) < t
      then erase_loop t (retval \<and> fst (DomainPart_erase t dp)) (q # ps)
             (j @ (if retval then [PartErase k t] else []) @ [DirSync])
      else (retval, (k, dp) # q # ps, j))"
| "erase_loop t retval ps j = (retval, ps, j)"

text \<open>\<^verbatim>\<open>Domain::erase\<close>; reading the first segment of an empty map is an error.\<close>

definition Domain_erase :: "SerialNum \<Rightarrow> Domain \<Rightarrow> error + (bool \<times> Domain)" where
  "Domain_erase t d =
     (case erase_loop t True (parts d) (journal d) of
        (retval, [], j) \<Rightarrow> Inl EmptyPartMap
      | (retval, (k, dp) # ps, j) \<Rightarrow>
          (if r_to (dp_range dp) \<ge> t
           then Inr (retval, d\<lparr>parts := (k, snd (DomainPart_erase t dp)) # ps,
                                journal := j @ [PartErase k t]\<rparr>)
           else Inr (retval, d\<lparr>parts := (k, dp) # ps, journal := j\<rparr>)))"

subsection \<open>Sessions\<close>

text \<open>
  \<^verbatim>\<open>Domain::startSession\<close>. \<open>now\<close> is the clock reading; \<open>accepted\<close> tells whether
  the session executor took the task (\<^verbatim>\<open>execute\<close> returned a null pointer) or handed
  it back.
\<close>

definition Domain_startSession :: "time \<Rightarrow> bool \<Rightarrow> int \<Rightarrow> Domain \<Rightarrow> int \<times> Domain" where
  "Domain_startSession now accepted sid d =
     (case sessions d sid of
        None \<Rightarrow> (- 1, d)
      | Some s \<Rightarrow>
          let d1 = d\<lparr>sessions := (sessions d)(sid \<mapsto> s\<lparr>ses_startTime := now\<rparr>)\<rparr>
          in if accepted then (0, d1)
             else (- 1, d1\<lparr>sessions := (sessions d1)(sid := None)\<rparr>))"

text \<open>Modelled from the spec: a session as its constructor leaves it, not yet started.\<close>

definition Session_new :: "SerialNumRange \<Rightarrow> Session" where
  "Session_new r =
     \<lparr>ses_range = r, ses_startTime = 0, ses_inSync = False, ses_finished = False,
      ses_visitRunning = False\<rparr>"

text \<open>\<^verbatim>\<open>Domain::visit\<close>: a session with a fresh id enters the map; the id is returned.\<close>

definition Domain_visit :: "SerialNum \<Rightarrow> SerialNum \<Rightarrow> Domain \<Rightarrow> int \<times> Domain" where
  "Domain_visit f t d =
     (let d1 = Domain_cleanSessions d;
          sid = sessionId d1
      in (sid, d1\<lparr>sessionId := sid + 1,
                  sessions := (sessions d1)(sid \<mapsto> Session_new \<lparr>r_from = f, r_to = t\<rparr>)\<rparr>))"

subsection \<open>Scanning the directory for segment files\<close>

text \<open>
  File names are C strings, modelled as lists of characters (a C string holds no NUL).
  \<^verbatim>\<open>isspace\<close> and \<^verbatim>\<open>isdigit\<close> in the C locale:
\<close>

definition is_space :: "char \<Rightarrow> bool" where
  "is_space c = (of_char c = (32::nat) \<or> (9 \<le> (of_char c :: nat) \<and> (of_char c :: nat) \<le> 13))"

definition is_digit :: "char \<Rightarrow> bool" where
  "is_digit c = (48 \<le> (of_char c :: nat) \<and> (of_char c :: nat) \<le> 57)"

definition digit_val :: "char \<Rightarrow> nat" where
  "digit_val c = of_char c - 48"

definition digit_char :: "nat \<Rightarrow> char" where
  "digit_char n = char_of (48 + n)"

text \<open>
  \<^verbatim>\<open>strtoull(p, NULL, 10)\<close>: leading white space is skipped, one sign is taken, then
  the longest run of decimal digits is read (none reads as 0). A value that does not fit
  64 bits gives \<^verbatim>\<open>ULLONG_MAX\<close>; a minus sign negates the value modulo \<open>2^64\<close>.
\<close>

definition strtoull :: "string \<Rightarrow> SerialNum" where
  "strtoull s =
     (let s1 = dropWhile is_space s;
          neg = (s1 \<noteq> [] \<and> hd s1 = CHR ''-'');
          s2 = (if s1 \<noteq> [] \<and> (hd s1 = CHR ''-'' \<or> hd s1 = CHR ''+'') then tl s1 else s1);
          v = foldl (\<lambda>acc c. acc * 10 + digit_val c) 0 (takeWhile is_digit s2)
      in if v \<ge> 2 ^ 64 then - 1
         else if neg then - (word_of_nat v)
         else word_of_nat v)"

text \<open>The decimal digits of a number, as \<^verbatim>\<open>printf\<close> writes them.\<close>

fun dec :: "nat \<Rightarrow> string" where
  "dec n = (if n < 10 then [digit_char n] else dec (n div 10) @ [digit_char (n mod 10)])"

declare dec.simps [simp del]

text \<open>
  The conversion \<^verbatim>\<open>%016\<close> \<^verbatim>\<open>PRIu64\<close>: the decimal digits, padded with zeros on the
  left up to a width of 16; a longer number is written in full.
\<close>

definition fmt_016 :: "SerialNum \<Rightarrow> string" where
  "fmt_016 num = replicate (16 - length (dec (unat num))) (CHR ''0'') @ dec (unat num)"

text \<open>\<^verbatim>\<open>fmt("%s-%016" PRIu64, _name.c_str(), num)\<close>.\<close>

definition checkName :: "string \<Rightarrow> SerialNum \<Rightarrow> string" where
  "checkName name num = name @ ''-'' @ fmt_016 num"

text \<open>
  The body of the loop of \<^verbatim>\<open>Domain::scanDir\<close> for one directory entry: \<open>Some num\<close>
  when the entry's number is pushed onto the result, \<open>None\<close> when the loop continues
  without it. \<^verbatim>\<open>strncmp\<close> over the prefix's length succeeds when the entry starts with
  the prefix; the character after it is read only then.
\<close>

definition scan_entry :: "string \<Rightarrow> string \<Rightarrow> SerialNum option" where
  "scan_entry wantPrefix ename =
     (if ename = ''.'' \<or> ename = ''..'' then None
      else if take (length wantPrefix) ename \<noteq> wantPrefix then None
      else if \<not> (length wantPrefix < length ename \<and> ename ! length wantPrefix = CHR ''-'') then None
      else let num = strtoull (drop (length wantPrefix + 1) ename)
           in if checkName wantPrefix num \<noteq> ename then None else Some num)"

text \<open>
  \<^verbatim>\<open>Domain::scanDir\<close> over the entries of the directory, in the order they are read:
  the loop pushes the accepted numbers onto \<open>res\<close>, which is sorted at the end.
\<close>

fun scan_loop :: "string \<Rightarrow> string list \<Rightarrow> SerialNum list \<Rightarrow> SerialNum list" where
  "scan_loop name [] res = res"
| "scan_loop name (ename # rest) res =
     (case scan_entry name ename of
        None \<Rightarrow> scan_loop name rest res
      | Some num \<Rightarrow> scan_loop name rest (res @ [num]))"

definition Domain_scanDir :: "string \<Rightarrow> string list \<Rightarrow> SerialNum list" where
  "Domain_scanDir name entries = sort (scan_loop name entries [])"

subsection \<open>Notions the properties are stated with\<close>

text \<open>
  The specification's reading of a range: \<open>from\<close> is the serial just before the first
  record, \<open>to\<close> the last serial included.
\<close>

definition range_contains :: "SerialNumRange \<Rightarrow> SerialNum \<Rightarrow> bool" where
  "range_contains r s = (r_from r < s \<and> s \<le> r_to r)"

text \<open>
  Segments in order: along the map, every segment's range starts no later than it ends,
  and ends no later than the next one starts.
\<close>

definition range_bounds :: "(SerialNum \<times> DomainPart) list \<Rightarrow> SerialNum list" where
  "range_bounds ps = concat (map (\<lambda>(k, dp). [r_from (dp_range dp), r_to (dp_range dp)]) ps)"

definition ranges_ordered :: "(SerialNum \<times> DomainPart) list \<Rightarrow> bool" where
  "ranges_ordered ps = sorted (range_bounds ps)"

text \<open>A run of commits, one after the other, stopping at the first that throws.\<close>

fun commit_all :: "(time \<times> Packet \<times> callback) list \<Rightarrow> Domain \<Rightarrow> error option \<times> Domain" where
  "commit_all [] d = (None, d)"
| "commit_all ((now, packet, onDone) # rest) d =
     (case Domain_commit now packet onDone d of
        (Some e, d') \<Rightarrow> (Some e, d')
      | (None, d') \<Rightarrow> commit_all rest d')"

text \<open>
  The last packet taken is on its way: it is in the chunk under way, or, when that chunk
  is empty, in the last chunk queued for the single writer. \<open>t\<close> is the end of the
  range of the chunk that holds it.
\<close>

definition pending_upto :: "Domain \<Rightarrow> SerialNum \<Rightarrow> bool" where
  "pending_upto d t =
     (if Packet_empty (c_data (currentChunk d))
      then singleCommiter d \<noteq> [] \<and> r_to (p_range (c_data (last (singleCommiter d)))) = t
      else r_to (p_range (c_data (currentChunk d))) = t)"

text \<open>Every chunk queued for the single writer holds a record, as \<^verbatim>\<open>commitChunk\<close> sees to.\<close>

definition queue_nonempty :: "Domain \<Rightarrow> bool" where
  "queue_nonempty d = list_all (\<lambda>c. \<not> Packet_empty (c_data c)) (singleCommiter d)"

text \<open>Packets and entries for the examples.\<close>

definition mk_packet :: "SerialNum \<Rightarrow> SerialNum \<Rightarrow> Entry list \<Rightarrow> Packet" where
  "mk_packet f t es = \<lparr>p_range = \<lparr>r_from = f, r_to = t\<rparr>, p_entries = es\<rparr>"

definition mk_entry :: "SerialNum \<Rightarrow> bytes \<Rightarrow> Entry" where
  "mk_entry s n = \<lparr>e_serial = s, e_bytes = n\<rparr>"

text \<open>A segment holding the serials up to \<open>t\<close>, stored under its starting serial \<open>f\<close>.\<close>

definition segment :: "SerialNum \<Rightarrow> SerialNum \<Rightarrow> SerialNum \<times> DomainPart" where
  "segment f t = (f, (DomainPart_new f)\<lparr>dp_range := \<lparr>r_from = f, r_to = t\<rparr>\<rparr>)"

text \<open>A configuration for the examples.\<close>

definition cfg0 :: DomainConfig where
  "cfg0 = \<lparr>chunkSizeLimit = 100, chunkAgeLimit = 10, partSizeLimit = 1000, fSyncOnCommit = False\<rparr>"

section \<open>Properties\<close>

subsection \<open>Auxiliary facts\<close>

lemma sizeBytes_pos_nonempty:
  "limit < Packet_sizeBytes p \<Longrightarrow> \<not> Packet_empty p"
  by (auto simp: Packet_sizeBytes_def Packet_empty_def)

lemma takeWhile_le_sorted:
  "sorted_wrt (<) (map fst ps) \<Longrightarrow>
   takeWhile (\<lambda>(k, v). k \<le> s) ps = filter (\<lambda>(k, v). k \<le> (s::SerialNum)) ps"
proof (induction ps)
  case Nil
  then show ?case by simp
next
  case (Cons a ps)
  obtain k v where a: "a = (k, v)" by (cases a)
  show ?case
  proof (cases "k \<le> s")
    case True
    with Cons a show ?thesis by simp
  next
    case False
    have "\<forall>x\<in>set ps. \<not> fst x \<le> s"
      using Cons.prems False a by auto
    then have "filter (\<lambda>(k, v). k \<le> s) ps = []"
      by (auto simp: filter_empty_conv)
    with False a show ?thesis by simp
  qed
qed

lemma dropWhile_le_sorted:
  "sorted_wrt (<) (map fst ps) \<Longrightarrow>
   dropWhile (\<lambda>(k, v). k \<le> s) ps = filter (\<lambda>(k, v). (s::SerialNum) < k) ps"
proof (induction ps)
  case Nil
  then show ?case by simp
next
  case (Cons a ps)
  obtain k v where a: "a = (k, v)" by (cases a)
  show ?case
  proof (cases "k \<le> s")
    case True
    with Cons a show ?thesis by auto
  next
    case False
    have "\<forall>x\<in>set ps. s < fst x"
      using Cons.prems False a by auto
    then have "filter (\<lambda>(k, v). s < k) ps = ps"
      by (auto simp: filter_id_conv)
    with False a show ?thesis by auto
  qed
qed

text \<open>
  The iterator arithmetic of \<^verbatim>\<open>findPart\<close>, read on the two halves into which
  \<^verbatim>\<open>upper_bound\<close> cuts the map.
\<close>

lemma findPart_split:
  "Domain_findPart d s =
     (let xs = takeWhile (\<lambda>(k, v). k \<le> s) (parts d);
          ys = dropWhile (\<lambda>(k, v). k \<le> s) (parts d)
      in if xs \<noteq> [] \<and> s < r_to (dp_range (snd (last xs))) then Some (last xs)
         else if ys \<noteq> [] then Some (hd ys)
         else None)"
proof -
  define xs where "xs = takeWhile (\<lambda>(k, v). k \<le> s) (parts d)"
  define ys where "ys = dropWhile (\<lambda>(k, v). k \<le> s) (parts d)"
  have ps: "parts d = xs @ ys" by (simp add: xs_def ys_def)
  have ub: "upper_bound s (parts d) = length xs" by (simp add: upper_bound_def xs_def)
  have lastxs: "xs \<noteq> [] \<Longrightarrow> parts d ! (length xs - 1) = last xs"
    by (simp add: ps nth_append last_conv_nth)
  have hdys: "ys \<noteq> [] \<Longrightarrow> parts d ! length xs = hd ys"
    by (simp add: ps nth_append hd_conv_nth)
  have len: "length xs \<noteq> length (parts d) \<longleftrightarrow> ys \<noteq> []" by (simp add: ps)
  have ne: "xs \<noteq> [] \<Longrightarrow> parts d \<noteq> []" by (simp add: ps)
  show ?thesis
    unfolding Domain_findPart_def Let_def ub xs_def[symmetric] ys_def[symmetric]
    using lastxs hdys len ne by (cases "xs = []") auto
qed

subsection \<open>commit\<close>

text \<open>
  C1. A commit whose packet's \<open>from\<close> is at or below \<open>lastSerial\<close> throws and leaves the
  whole state, \<open>lastSerial\<close> and the segment map with it, as it was. Any other commit returns;
  \<open>lastSerial\<close> is then the packet's \<open>to\<close>, the packet is merged into the chunk under way
  and the callback is appended to the chunk's callbacks; and the chunk is handed to the
  single writer (an empty chunk taking its place) exactly when its byte size is then above
  the chunk size limit.
\<close>

theorem C1_commit:
  "Domain_commit now packet onDone d =
     (if r_from (p_range packet) \<le> lastSerial d then (Some RuntimeError, d)
      else (None,
            if chunkSizeLimit (config d) < Chunk_sizeBytes (Chunk_add now packet onDone (currentChunk d))
            then d\<lparr>lastSerial := r_to (p_range packet), currentChunk := Chunk_new,
                   singleCommiter := singleCommiter d @ [Chunk_add now packet onDone (currentChunk d)]\<rparr>
            else d\<lparr>lastSerial := r_to (p_range packet),
                   currentChunk := Chunk_add now packet onDone (currentChunk d)\<rparr>))
   \<and> c_data (Chunk_add now packet onDone c) = Packet_merge (c_data c) packet
   \<and> c_callBacks (Chunk_add now packet onDone c) = c_callBacks c @ [onDone]"
proof -
  have flush: "\<not> Packet_empty (c_data (Chunk_add now packet onDone (currentChunk d)))"
    if "chunkSizeLimit (config d) < Chunk_sizeBytes (Chunk_add now packet onDone (currentChunk d))"
    using that sizeBytes_pos_nonempty by (simp add: Chunk_sizeBytes_def)
  have "Domain_commit now packet onDone d =
     (if r_from (p_range packet) \<le> lastSerial d then (Some RuntimeError, d)
      else (None,
            if chunkSizeLimit (config d) < Chunk_sizeBytes (Chunk_add now packet onDone (currentChunk d))
            then d\<lparr>lastSerial := r_to (p_range packet), currentChunk := Chunk_new,
                   singleCommiter := singleCommiter d @ [Chunk_add now packet onDone (currentChunk d)]\<rparr>
            else d\<lparr>lastSerial := r_to (p_range packet),
                   currentChunk := Chunk_add now packet onDone (currentChunk d)\<rparr>))"
    using flush
    by (simp add: Domain_commit_def Domain_commitIfFull_def Domain_grabCurrentChunk_def
        Domain_commitChunk_def Let_def)
  moreover have "c_data (Chunk_add now packet onDone c) = Packet_merge (c_data c) packet"
    by (simp add: Chunk_add_def)
  moreover have "c_callBacks (Chunk_add now packet onDone c) = c_callBacks c @ [onDone]"
    by (simp add: Chunk_add_def)
  ultimately show ?thesis by blast
qed

subsection \<open>getSynced\<close>

text \<open>
  C5. \<open>getSynced\<close> is 0 on an empty map and the only segment's synced serial on a map of
  one segment. On a longer map it is the last segment's synced serial, unless that is 0:
  then it is the synced serial of the segment just before the last (which is 0 again when
  that one was never synced).
\<close>

theorem C5_getSynced:
  "Domain_getSynced (d\<lparr>parts := []\<rparr>) = 0
   \<and> Domain_getSynced (d\<lparr>parts := [(k, dp)]\<rparr>) = dp_synced dp
   \<and> Domain_getSynced (d\<lparr>parts := ps @ [(k1, prev), (k, dp)]\<rparr>)
       = (if dp_synced dp = 0 then dp_synced prev else dp_synced dp)"
  by (simp add: Domain_getSynced_def Let_def nth_append)

subsection \<open>findPart\<close>

text \<open>
  C6, as amended. On a map in ascending key order, \<open>findPart s\<close> is the segment with the
  greatest starting serial at or below \<open>s\<close> when that segment ends strictly above \<open>s\<close>;
  otherwise it is the segment with the least starting serial above \<open>s\<close>, when there is
  one; otherwise none.
\<close>

theorem C6_findPart_amended:
  assumes "sorted_wrt (<) (map fst (parts d))"
  shows "Domain_findPart d s =
     (let xs = filter (\<lambda>(k, v). k \<le> s) (parts d);
          ys = filter (\<lambda>(k, v). s < k) (parts d)
      in if xs \<noteq> [] \<and> s < r_to (dp_range (snd (last xs))) then Some (last xs)
         else if ys \<noteq> [] then Some (hd ys)
         else None)"
  using assms by (simp add: findPart_split takeWhile_le_sorted dropWhile_le_sorted)

theorem C6_findPart_amended_witness:
  "sorted_wrt (<) (map fst (parts (Domain_at_rest cfg0 [segment 0 5, segment 6 10] 10)))
   \<and> Domain_findPart (Domain_at_rest cfg0 [segment 0 5, segment 6 10] 10) 3 = Some (segment 0 5)
   \<and> Domain_findPart (Domain_at_rest cfg0 [segment 0 5, segment 6 10] 10) 5 = Some (segment 6 10)
   \<and> Domain_findPart (Domain_at_rest cfg0 [segment 0 5, segment 6 10] 10) 10 = None"
proof -
  let ?d = "Domain_at_rest cfg0 [segment 0 5, segment 6 10] 10"
  have s: "sorted_wrt (<) (map fst (parts ?d))"
    by (simp add: Domain_at_rest_def segment_def)
  show ?thesis
    using s C6_findPart_amended [OF s, of 3] C6_findPart_amended [OF s, of 5]
      C6_findPart_amended [OF s, of 10]
    by (simp add: Domain_at_rest_def segment_def DomainPart_new_def)
qed

text \<open>
  The claim as stated fails both ways. With the single segment \<open>(6, 10)\<close>, no range
  contains 2, and \<open>findPart 2\<close> is that segment, not none. With the segments \<open>(0, 5)\<close>
  and \<open>(6, 10)\<close>, the first one's range contains 5, and \<open>findPart 5\<close> is the second.
\<close>

theorem C6_findPart_counterexample:
  "list_all (\<lambda>(k, dp). \<not> range_contains (dp_range dp) 2) (parts (Domain_at_rest cfg0 [segment 6 10] 10))
   \<and> Domain_findPart (Domain_at_rest cfg0 [segment 6 10] 10) 2 = Some (segment 6 10)
   \<and> range_contains (dp_range (snd (segment 0 5))) 5
   \<and> Domain_findPart (Domain_at_rest cfg0 [segment 0 5, segment 6 10] 10) 5 = Some (segment 6 10)"
  by (simp add: Domain_at_rest_def segment_def range_contains_def Domain_findPart_def
      upper_bound_def DomainPart_new_def)

subsection \<open>commitIfStale and commitChunk\<close>



text \<open>
  C10. \<open>commitChunk\<close> returns false and queues nothing for a chunk whose packet is
  empty, and returns true, with the chunk queued for the single writer, for any other. So
  the destructor's handover queues no write when the chunk under way is empty, and
  destroying a domain at rest writes nothing.
\<close>

theorem C10_commitChunk:
  "Domain_commitChunk chunk d =
     (if Packet_empty (c_data chunk) then (False, d)
      else (True, d\<lparr>singleCommiter := singleCommiter d @ [chunk]\<rparr>))
   \<and> Domain_destroy_handover d =
     (if Packet_empty (c_data (currentChunk d)) then (False, d\<lparr>currentChunk := Chunk_new\<rparr>)
      else (True, d\<lparr>currentChunk := Chunk_new, singleCommiter := singleCommiter d @ [currentChunk d]\<rparr>))
   \<and> singleCommiter (snd (Domain_destroy_handover d)) =
     (if Packet_empty (c_data (currentChunk d)) then singleCommiter d
      else singleCommiter d @ [currentChunk d])
   \<and> Domain_destroy (Domain_at_rest cfg ps ls) = Inr (Domain_at_rest cfg ps ls)"
  by (auto simp: Domain_commitChunk_def Domain_destroy_handover_def Domain_grabCurrentChunk_def
      Domain_destroy_def singleCommiter_sync_def Domain_at_rest_def Chunk_new_def Packet_new_def
      Packet_empty_def)

subsection \<open>startSession\<close>

text \<open>
  C9. For an id that is not in the session map, \<open>startSession\<close> returns -1 and leaves
  the state as it was. For an id in the map, it returns -1 with that session removed when
  the executor hands the task back, and 0 with the session kept, its start time set, when
  the executor takes the task.
\<close>

theorem C9_startSession:
  "(sessions d sid = None \<longrightarrow> Domain_startSession now accepted sid d = (- 1, d))
   \<and> (sessions d sid = Some s \<longrightarrow>
        Domain_startSession now False sid d = (- 1, d\<lparr>sessions := (sessions d)(sid := None)\<rparr>)
        \<and> Domain_startSession now True sid d
            = (0, d\<lparr>sessions := (sessions d)(sid \<mapsto> s\<lparr>ses_startTime := now\<rparr>)\<rparr>))"
  by (auto simp: Domain_startSession_def Let_def)

theorem C9_startSession_witness:
  "sessions (snd (Domain_visit 0 5 (Domain_at_rest cfg0 [segment 0 5] 5))) 4 = None
   \<and> fst (Domain_startSession 7 True 4 (snd (Domain_visit 0 5 (Domain_at_rest cfg0 [segment 0 5] 5)))) = - 1
   \<and> sessions (snd (Domain_visit 0 5 (Domain_at_rest cfg0 [segment 0 5] 5))) 1
       = Some (Session_new \<lparr>r_from = 0, r_to = 5\<rparr>)
   \<and> fst (Domain_startSession 7 False 1 (snd (Domain_visit 0 5 (Domain_at_rest cfg0 [segment 0 5] 5)))) = - 1
   \<and> sessions (snd (Domain_startSession 7 False 1 (snd (Domain_visit 0 5 (Domain_at_rest cfg0 [segment 0 5] 5))))) 1 = None
   \<and> fst (Domain_startSession 7 True 1 (snd (Domain_visit 0 5 (Domain_at_rest cfg0 [segment 0 5] 5)))) = 0"
proof -
  let ?d = "snd (Domain_visit 0 5 (Domain_at_rest cfg0 [segment 0 5] 5))"
  have n: "sessions ?d 4 = None"
    by (simp add: Domain_visit_def Domain_cleanSessions_def Domain_at_rest_def Let_def)
  have k: "sessions ?d 1 = Some (Session_new \<lparr>r_from = 0, r_to = 5\<rparr>)"
    by (simp add: Domain_visit_def Domain_cleanSessions_def Domain_at_rest_def Let_def)
  show ?thesis
    using n k C9_startSession [where d = ?d and sid = 4 and now = 7 and accepted = True]
      C9_startSession [where d = ?d and sid = 1 and now = 7
        and s = "Session_new \<lparr>r_from = 0, r_to = 5\<rparr>"]
    by simp
qed

subsection \<open>doCommit: rotating the segments\<close>

lemma parts_call_other:
  "\<forall>x\<in>set ps. fst x \<noteq> k \<Longrightarrow> parts_call k f ps = ps"
  by (induction ps) (auto simp: parts_call_def)

lemma parts_call_append:
  "parts_call k f (ps @ qs) = parts_call k f ps @ parts_call k f qs"
  by (simp add: parts_call_def)

lemma parts_call_last:
  "\<forall>x\<in>set ps. fst x \<noteq> k \<Longrightarrow> parts_call k f (ps @ [(k, v)]) = ps @ [(k, f v)]"
  by (simp add: parts_call_append parts_call_other) (simp add: parts_call_def)

lemma parts_put_last:
  "\<forall>x\<in>set ps. fst x < k \<Longrightarrow> parts_put k v ps = ps @ [(k, v)]"
  by (induction ps) auto

lemma parts_call_keys: "map fst (parts_call k f ps) = map fst ps"
  by (induction ps) (auto simp: parts_call_def)

lemma parts_call_split_last:
  "parts_call k0 f (ps @ [(k, v)]) = parts_call k0 f ps @ [(k, if k = k0 then f v else v)]"
  by (simp add: parts_call_def)

lemma parts_put_replace_last:
  "\<forall>x\<in>set ps. fst x < k \<Longrightarrow> parts_put k v (ps @ [(k, w)]) = ps @ [(k, v)]"
  by (induction ps) auto

lemma sorted_keys_below_last:
  "sorted_wrt (<) (map fst (ps @ [(k, v)])) \<Longrightarrow> \<forall>x\<in>set ps. fst x < (k::SerialNum)"
  by (auto simp: sorted_wrt_append)


text \<open>Unfolding the operations on the examples.\<close>

lemmas ev = Domain_at_rest_def segment_def DomainPart_new_def cfg0_def mk_packet_def mk_entry_def
  Domain_commit_def Domain_commitIfFull_def Domain_grabCurrentChunk_def Domain_commitChunk_def
  Chunk_add_def Chunk_new_def Packet_new_def Packet_merge_def Chunk_sizeBytes_def
  Packet_sizeBytes_def Packet_empty_def Let_def

text \<open>
  C3. The single writer processes a chunk while the open segment \<open>k\<close>, the last of the
  map, is larger than the segment size limit; the map is in ascending key order and the
  chunk's first serial is not below \<open>k\<close> (as it is for chunks built from accepted
  commits).
  Then \<open>doCommit\<close> returns, and the journal shows its steps in order: it waits for the
  sync in flight, if any (which runs), triggers a sync of \<open>k\<close>, waits for it (it runs),
  closes \<open>k\<close>, opens a segment under the chunk's first serial, syncs the directory,
  commits the packet to that new segment, syncs it when fsync-on-commit is set, and releases
  the callbacks. Afterwards the old segment is closed and synced up to its end (when the
  chunk's first serial is \<open>k\<close> itself, the new segment has taken its place in the map),
  and the new one is the last of the map, open, holding the packet.
\<close>

theorem C3_doCommit_rotation:
  assumes ps: "parts d = ps @ [(k, dp)]"
    and sorted: "sorted_wrt (<) (map fst (parts d))"
    and entries: "p_entries (c_data chunk) = entry # es"
    and big: "partSizeLimit (config d) < dp_byteSize dp"
    and above: "k \<le> e_serial entry"
  shows "\<exists>d'. Domain_doCommit chunk d = Inr d'
     \<and> journal d' = journal d @ [WaitPendingSync]
          @ (case pendingSync d of None \<Rightarrow> [] | Some k0 \<Rightarrow> [PartSync k0])
          @ [TriggerSync k, WaitPendingSync, PartSync k, PartClose k,
             PartOpen (e_serial entry), DirSync,
             PartCommit (e_serial entry) (e_serial entry)]
          @ (if fSyncOnCommit (config d) then [PartSync (e_serial entry)] else [])
          @ [Release (c_callBacks chunk)]
     \<and> parts d' =
          (case pendingSync d of None \<Rightarrow> ps | Some k0 \<Rightarrow> parts_call k0 DomainPart_sync ps)
          @ (if k < e_serial entry
             then [(k, dp\<lparr>dp_synced := r_to (dp_range dp), dp_closed := True\<rparr>)] else [])
          @ [(e_serial entry,
              (if fSyncOnCommit (config d) then DomainPart_sync else id)
                (DomainPart_commit (e_serial entry) (c_data chunk) (DomainPart_new (e_serial entry))))]
     \<and> \<not> dp_closed (snd (last (parts d')))
     \<and> pendingSync d' = None"
proof -
  let ?s = "e_serial entry"
  let ?ps = "case pendingSync d of None \<Rightarrow> ps | Some k0 \<Rightarrow> parts_call k0 DomainPart_sync ps"
  have keys: "map fst ?ps = map fst ps"
    by (simp add: parts_call_keys split: option.splits)
  have "\<forall>x\<in>set ps. fst x < k"
    using sorted ps sorted_keys_below_last by simp
  then have "\<forall>y\<in>set (map fst ps). y < k" by simp
  then have "\<forall>y\<in>set (map fst ?ps). y < k" by (simp only: keys)
  then have below: "\<forall>x\<in>set ?ps. fst x < k" by simp
  then have nek: "\<forall>x\<in>set ?ps. fst x \<noteq> k" by auto
  have below_s: "\<forall>x\<in>set ?ps. fst x < ?s" using below above by auto
  let ?synced = "dp\<lparr>dp_synced := r_to (dp_range dp)\<rparr>"
  let ?old = "dp\<lparr>dp_synced := r_to (dp_range dp), dp_closed := True\<rparr>"
  let ?kept = "?ps @ (if k < ?s then [(k, ?old)] else [])"
  define d1 where "d1 = waitPendingSync d"
  obtain dp1 where d1: "parts d1 = ?ps @ [(k, dp1)]" "dp1 = dp \<or> dp1 = ?synced"
    "pendingSync d1 = None" "config d1 = config d" "sessions d1 = sessions d"
    "journal d1 = journal d @ [WaitPendingSync]
        @ (case pendingSync d of None \<Rightarrow> [] | Some k0 \<Rightarrow> [PartSync k0])"
    using ps
    by (cases "pendingSync d")
      (auto simp: d1_def waitPendingSync_def Sync_run_def Let_def parts_call_split_last
        DomainPart_sync_def)
  obtain d2 where d2: "Domain_triggerSyncNow d1 = Inr d2" "parts d2 = parts d1"
    "pendingSync d2 = Some k" "config d2 = config d" "sessions d2 = sessions d"
    "journal d2 = journal d1 @ [TriggerSync k]"
    using d1 by (simp add: Domain_triggerSyncNow_def)
  define d3 where "d3 = waitPendingSync d2"
  have d3: "parts d3 = ?ps @ [(k, ?synced)]" "pendingSync d3 = None" "config d3 = config d"
    "sessions d3 = sessions d"
    "journal d3 = journal d1 @ [TriggerSync k, WaitPendingSync, PartSync k]"
    using d2 d1 nek
    by (auto simp: d3_def waitPendingSync_def Sync_run_def Let_def parts_call_last DomainPart_sync_def)
  have put: "parts_put ?s v (?ps @ [(k, ?old)]) = ?kept @ [(?s, v)]" for v
  proof (cases "k < ?s")
    case True
    then have "\<forall>x\<in>set (?ps @ [(k, ?old)]). fst x < ?s" using below_s by simp
    from parts_put_last [OF this] True show ?thesis by simp
  next
    case False
    then have "k = ?s" using above by simp
    with parts_put_replace_last [OF below, of v ?old] show ?thesis by simp
  qed
  obtain d6 where d6: "Domain_rotate k ?s d = Inr d6"
    "parts d6 = ?kept @ [(?s, DomainPart_new ?s)]" "pendingSync d6 = None"
    "config d6 = config d" "sessions d6 = sessions d"
    "journal d6 = journal d1 @ [TriggerSync k, WaitPendingSync, PartSync k, PartClose k,
        PartOpen ?s, DirSync]"
    using d2 d3 nek
    by (simp add: Domain_rotate_def Let_def d1_def[symmetric] d3_def[symmetric]
        parts_call_last DomainPart_close_def put)
  have ne: "parts d \<noteq> []" using ps by simp
  have tail: "last (parts d) = (k, dp)" using ps by simp
  have nes: "\<forall>x\<in>set ?kept. fst x \<noteq> ?s" using below_s by auto
  have call: "parts_call ?s f (?kept @ [(?s, v)]) = ?kept @ [(?s, f v)]" for f v
    using nes by (rule parts_call_last)
  have last: "last (?kept @ [(?s, v)]) = (?s, v)" "?kept @ [(?s, v)] \<noteq> []" for v by simp_all
  show ?thesis
    unfolding Domain_doCommit_def Let_def
    using ne tail entries big d6 d1(6)
    by (simp add: Domain_cleanSessions_def call DomainPart_commit_def DomainPart_sync_def
        DomainPart_new_def del: append_assoc)
qed

theorem C3_doCommit_rotation_witness:
  "parts (Domain_at_rest cfg0 [(0, (DomainPart_new 0)\<lparr>dp_byteSize := 2000\<rparr>)] 5)
      = [] @ [(0, (DomainPart_new 0)\<lparr>dp_byteSize := 2000\<rparr>)]
   \<and> partSizeLimit (config (Domain_at_rest cfg0 [(0, (DomainPart_new 0)\<lparr>dp_byteSize := 2000\<rparr>)] 5)) < 2000
   \<and> map_sum id (\<lambda>d. (map fst (parts d), map (dp_closed \<circ> snd) (parts d), journal d))
       (Domain_doCommit \<lparr>c_data = mk_packet 6 7 [mk_entry 6 10, mk_entry 7 10], c_callBacks = [4], c_firstArrivalTime = 2\<rparr>
         (Domain_at_rest cfg0 [(0, (DomainPart_new 0)\<lparr>dp_byteSize := 2000\<rparr>)] 5))
      = Inr ([0, 6], [True, False],
          [WaitPendingSync, TriggerSync 0, WaitPendingSync, PartSync 0, PartClose 0, PartOpen 6,
           DirSync, PartCommit 6 6, Release [4]])"
proof -
  let ?dp = "(DomainPart_new 0)\<lparr>dp_byteSize := 2000\<rparr>"
  let ?d = "Domain_at_rest cfg0 [(0, ?dp)] 5"
  let ?c = "\<lparr>c_data = mk_packet 6 7 [mk_entry 6 10, mk_entry 7 10], c_callBacks = [4], c_firstArrivalTime = 2\<rparr>"
  have a1: "parts ?d = [] @ [(0, ?dp)]" by (simp add: ev)
  have a2: "sorted_wrt (<) (map fst (parts ?d))" by (simp add: ev)
  have a3: "p_entries (c_data ?c) = mk_entry 6 10 # [mk_entry 7 10]" by (simp add: ev)
  have a4: "partSizeLimit (config ?d) < dp_byteSize ?dp" by (simp add: ev)
  have a5: "0 \<le> e_serial (mk_entry 6 10)" by (simp add: ev)
  from C3_doCommit_rotation [OF a1 a2 a3 a4 a5]
  obtain d' where "Domain_doCommit ?c ?d = Inr d'"
    "journal d' = [WaitPendingSync, TriggerSync 0, WaitPendingSync, PartSync 0, PartClose 0, PartOpen 6,
           DirSync, PartCommit 6 6, Release [4]]"
    "map fst (parts d') = [0, 6]" "map (dp_closed \<circ> snd) (parts d') = [True, False]"
    by (auto simp: ev DomainPart_commit_def)
  with a1 a4 show ?thesis by (simp add: ev)
qed

subsection \<open>end() after a run of commits\<close>

lemma parts_call_nonempty: "parts_call k f ps = [] \<longleftrightarrow> ps = []"
  by (simp add: parts_call_def)

lemma parts_put_nonempty: "parts_put k v ps \<noteq> []"
  by (cases ps) (auto split: if_splits)

lemma parts_call_last_key:
  "ps \<noteq> [] \<Longrightarrow> last (parts_call (fst (last ps)) f ps) = (fst (last ps), f (snd (last ps)))"
  by (simp add: parts_call_def last_map split: prod.splits)

lemma waitPendingSync_parts: "parts (waitPendingSync d) \<noteq> [] \<longleftrightarrow> parts d \<noteq> []"
  by (simp add: waitPendingSync_def Sync_run_def Let_def parts_call_nonempty split: option.splits)

lemma rotate_ok:
  assumes "parts d \<noteq> []"
  shows "\<exists>d'. Domain_rotate k s d = Inr d' \<and> parts d' \<noteq> [] \<and> config d' = config d"
proof -
  have ne: "parts (waitPendingSync d) \<noteq> []" using assms by (simp add: waitPendingSync_parts)
  have cfg: "config (waitPendingSync d) = config d" for d
    by (simp add: waitPendingSync_def Sync_run_def Let_def split: option.splits)
  obtain d2 where d2: "Domain_triggerSyncNow (waitPendingSync d) = Inr d2" "config d2 = config d"
    using ne cfg [of d]
    by (cases "pendingSync (waitPendingSync d) = None") (auto simp: Domain_triggerSyncNow_def)
  show ?thesis
    using d2 cfg [of d2] by (simp add: Domain_rotate_def Let_def parts_put_nonempty)
qed

lemma doCommit_end:
  assumes ne: "parts d \<noteq> []" and chunk: "\<not> Packet_empty (c_data chunk)"
  shows "\<exists>d'. Domain_doCommit chunk d = Inr d' \<and> parts d' \<noteq> []
           \<and> Domain_end d' = r_to (p_range (c_data chunk))"
proof -
  obtain entry es where es: "p_entries (c_data chunk) = entry # es"
    using chunk by (cases "p_entries (c_data chunk)") (auto simp: Packet_empty_def)
  let ?rot = "if partSizeLimit (config d) < dp_byteSize (snd (last (parts d)))
              then Domain_rotate (fst (last (parts d))) (e_serial entry) d else Inr d"
  obtain d1 where d1: "?rot = Inr d1" "parts d1 \<noteq> []" "config d1 = config d"
    using rotate_ok [OF ne] ne by (cases "partSizeLimit (config d) < dp_byteSize (snd (last (parts d)))") auto
  let ?k = "fst (last (parts d1))"
  let ?f = "DomainPart_commit (e_serial entry) (c_data chunk)"
  have l1: "last (parts_call ?k ?f (parts d1)) = (?k, ?f (snd (last (parts d1))))"
    using d1(2) by (rule parts_call_last_key)
  have ne1: "parts_call ?k ?f (parts d1) \<noteq> []" using d1(2) by (simp add: parts_call_nonempty)
  have l2: "last (parts_call ?k DomainPart_sync (parts_call ?k ?f (parts d1)))
              = (?k, DomainPart_sync (?f (snd (last (parts d1)))))"
    using parts_call_last_key [OF ne1, of DomainPart_sync] l1 by simp
  show ?thesis
    using ne es d1 l1 l2 ne1
    by (simp add: Domain_doCommit_def Let_def Domain_cleanSessions_def Domain_end_def
        parts_call_nonempty DomainPart_commit_def DomainPart_sync_def)
qed

lemma run_tasks_end:
  assumes "parts d \<noteq> []" and "list_all (\<lambda>c. \<not> Packet_empty (c_data c)) q" and "q \<noteq> []"
  shows "\<exists>d'. run_tasks q d = Inr d' \<and> parts d' \<noteq> []
           \<and> Domain_end d' = r_to (p_range (c_data (last q)))"
  using assms
proof (induction q arbitrary: d)
  case Nil
  then show ?case by simp
next
  case (Cons c q)
  obtain d1 where d1: "Domain_doCommit c d = Inr d1" "parts d1 \<noteq> []"
    "Domain_end d1 = r_to (p_range (c_data c))"
    using doCommit_end [of d c] Cons.prems by auto
  show ?case
  proof (cases "q = []")
    case True
    with d1 show ?thesis by simp
  next
    case False
    with Cons.IH [of d1] Cons.prems d1 show ?thesis by simp
  qed
qed

lemma commit_step:
  assumes "Domain_commit now p cb d = (None, d')" and "\<not> Packet_empty p" and "queue_nonempty d"
  shows "pending_upto d' (r_to (p_range p)) \<and> parts d' = parts d \<and> queue_nonempty d'"
proof -
  let ?c = "Chunk_add now p cb (currentChunk d)"
  have c: "\<not> Packet_empty (c_data ?c)" "r_to (p_range (c_data ?c)) = r_to (p_range p)"
    using assms(2) by (simp_all add: Chunk_add_def Packet_merge_def Packet_empty_def)
  have e: "Packet_empty (c_data Chunk_new)"
    by (simp add: Chunk_new_def Packet_new_def Packet_empty_def)
  show ?thesis
    using assms c e
    by (auto simp: Domain_commit_def Domain_commitIfFull_def Domain_grabCurrentChunk_def
        Domain_commitChunk_def Let_def pending_upto_def queue_nonempty_def split: if_splits)
qed

lemma commit_all_inv:
  assumes "commit_all cs d = (None, d')" and "cs \<noteq> []"
    and "list_all (\<lambda>(now, p, cb). \<not> Packet_empty p) cs" and "queue_nonempty d"
  shows "pending_upto d' (r_to (p_range (fst (snd (last cs))))) \<and> parts d' = parts d
           \<and> queue_nonempty d'"
  using assms
proof (induction cs arbitrary: d)
  case Nil
  then show ?case by simp
next
  case (Cons x cs)
  obtain now p cb where x: "x = (now, p, cb)" by (cases x)
  obtain d1 where d1: "Domain_commit now p cb d = (None, d1)" "commit_all cs d1 = (None, d')"
    using Cons.prems(1) x by (auto split: prod.splits option.splits)
  have p: "\<not> Packet_empty p" using Cons.prems(3) x by simp
  note step = commit_step [OF d1(1) p Cons.prems(4)]
  show ?case
  proof (cases "cs = []")
    case True
    with d1 step x show ?thesis by simp
  next
    case False
    with Cons.IH [OF d1(2)] Cons.prems(3) step show ?thesis by simp
  qed
qed

lemma flush_drain_end:
  assumes "pending_upto d t" and "queue_nonempty d" and "parts d \<noteq> []"
  shows "\<exists>d'. Domain_destroy d = Inr d' \<and> Domain_end d' = t"
proof -
  let ?q = "singleCommiter (snd (Domain_destroy_handover d))"
  have q: "?q \<noteq> []" "list_all (\<lambda>c. \<not> Packet_empty (c_data c)) ?q"
    "r_to (p_range (c_data (last ?q))) = t"
    using assms(1,2)
    by (auto simp: Domain_destroy_handover_def Domain_grabCurrentChunk_def Domain_commitChunk_def
        pending_upto_def queue_nonempty_def split: if_splits)
  have ps: "parts ((snd (Domain_destroy_handover d))\<lparr>singleCommiter := []\<rparr>) \<noteq> []"
    using assms(3)
    by (simp add: Domain_destroy_handover_def Domain_grabCurrentChunk_def Domain_commitChunk_def)
  show ?thesis
    using run_tasks_end [OF ps q(2) q(1)] q(3)
    by (auto simp: Domain_destroy_def singleCommiter_sync_def)
qed


lemma drain_end:
  assumes "pending_upto d t" and "Packet_empty (c_data (currentChunk d))"
    and "queue_nonempty d" and "parts d \<noteq> []"
  shows "\<exists>d'. singleCommiter_sync d = Inr d' \<and> Domain_end d' = t"
proof -
  have q: "singleCommiter d \<noteq> []" "r_to (p_range (c_data (last (singleCommiter d)))) = t"
    using assms(1,2) by (simp_all add: pending_upto_def)
  have ps: "parts (d\<lparr>singleCommiter := []\<rparr>) \<noteq> []" using assms(4) by simp
  show ?thesis
    using run_tasks_end [OF ps assms(3) [unfolded queue_nonempty_def] q(1)] q(2)
    by (auto simp: singleCommiter_sync_def)
qed

lemma commitIfStale_flush:
  assumes "fst (Domain_commitIfStale now d)" and "pending_upto d t" and "queue_nonempty d"
  shows "pending_upto (snd (Domain_commitIfStale now d)) t
         \<and> Packet_empty (c_data (currentChunk (snd (Domain_commitIfStale now d))))
         \<and> queue_nonempty (snd (Domain_commitIfStale now d))
         \<and> parts (snd (Domain_commitIfStale now d)) = parts d"
  using assms
  by (auto simp: Domain_commitIfStale_def Domain_grabCurrentChunk_def Domain_commitChunk_def
      pending_upto_def queue_nonempty_def Chunk_new_def Packet_new_def Packet_empty_def
      split: if_splits)

text \<open>
  C2, as amended. After a run of commits that all return, each of a packet that holds a
  record, on a domain with a segment, \<open>end()\<close> is the \<open>to\<close> of the last packet
  committed once the chunk under way has been handed to the single writer and the writer has
  drained: after the two steps of the destructor; after a drain alone when the last commit
  left the chunk under way empty (it crossed the size limit); and after a drain that follows
  a \<open>commitIfStale\<close> returning true.
\<close>

theorem C2_end_after_flush:
  assumes "commit_all cs d = (None, d')" and "cs \<noteq> []"
    and "list_all (\<lambda>(now, p, cb). \<not> Packet_empty p) cs"
    and "queue_nonempty d" and "parts d \<noteq> []"
  shows "(\<exists>d''. Domain_destroy d' = Inr d''
            \<and> Domain_end d'' = r_to (p_range (fst (snd (last cs)))))
       \<and> (Packet_empty (c_data (currentChunk d')) \<longrightarrow>
            (\<exists>d''. singleCommiter_sync d' = Inr d''
               \<and> Domain_end d'' = r_to (p_range (fst (snd (last cs))))))
       \<and> (fst (Domain_commitIfStale now d') \<longrightarrow>
            (\<exists>d''. singleCommiter_sync (snd (Domain_commitIfStale now d')) = Inr d''
               \<and> Domain_end d'' = r_to (p_range (fst (snd (last cs))))))"
proof -
  let ?t = "r_to (p_range (fst (snd (last cs))))"
  from commit_all_inv [OF assms(1-4)]
  have inv: "pending_upto d' ?t" "queue_nonempty d'" "parts d' \<noteq> []"
    using assms(5) by simp_all
  have a: "\<exists>d''. Domain_destroy d' = Inr d'' \<and> Domain_end d'' = ?t"
    using inv by (rule flush_drain_end)
  have b: "\<exists>d''. singleCommiter_sync d' = Inr d'' \<and> Domain_end d'' = ?t"
    if "Packet_empty (c_data (currentChunk d'))"
    using inv(1) that inv(2,3) by (rule drain_end)
  have c: "\<exists>d''. singleCommiter_sync (snd (Domain_commitIfStale now d')) = Inr d''
             \<and> Domain_end d'' = ?t"
    if "fst (Domain_commitIfStale now d')"
  proof -
    from commitIfStale_flush [OF that inv(1,2)] inv(3)
    show ?thesis by (intro drain_end) simp_all
  qed
  from a b c show ?thesis by blast
qed

theorem C2_end_after_flush_witness:
  "fst (commit_all [(3, mk_packet 2 2 [mk_entry 2 10], 0), (4, mk_packet 3 5 [mk_entry 3 10, mk_entry 5 200], 7)]
         (Domain_at_rest cfg0 [segment 0 0] 0)) = None
   \<and> queue_nonempty (Domain_at_rest cfg0 [segment 0 0] 0)
   \<and> parts (Domain_at_rest cfg0 [segment 0 0] 0) \<noteq> []
   \<and> Packet_empty (c_data (currentChunk (snd (commit_all [(3, mk_packet 2 2 [mk_entry 2 10], 0), (4, mk_packet 3 5 [mk_entry 3 10, mk_entry 5 200], 7)]
         (Domain_at_rest cfg0 [segment 0 0] 0)))))
   \<and> map_sum id Domain_end
        (Domain_destroy (snd (commit_all [(3, mk_packet 2 2 [mk_entry 2 10], 0), (4, mk_packet 3 5 [mk_entry 3 10, mk_entry 5 200], 7)]
         (Domain_at_rest cfg0 [segment 0 0] 0)))) = Inr 5
   \<and> map_sum id Domain_end
        (singleCommiter_sync (snd (commit_all [(3, mk_packet 2 2 [mk_entry 2 10], 0), (4, mk_packet 3 5 [mk_entry 3 10, mk_entry 5 200], 7)]
         (Domain_at_rest cfg0 [segment 0 0] 0)))) = Inr 5
   \<and> fst (Domain_commitIfStale 20 (snd (commit_all [(3, mk_packet 2 2 [mk_entry 2 10], 0)] (Domain_at_rest cfg0 [segment 0 0] 0))))
   \<and> map_sum id Domain_end
        (singleCommiter_sync (snd (Domain_commitIfStale 20
           (snd (commit_all [(3, mk_packet 2 2 [mk_entry 2 10], 0)] (Domain_at_rest cfg0 [segment 0 0] 0))))))
       = Inr 2"
proof -
  let ?d = "Domain_at_rest cfg0 [segment 0 0] 0"
  let ?cs = "[(3, mk_packet 2 2 [mk_entry 2 10], 0), (4, mk_packet 3 5 [mk_entry 3 10, mk_entry 5 200], 7)]"
  let ?cs1 = "[(3, mk_packet 2 2 [mk_entry 2 10], 0::nat)] :: (time \<times> Packet \<times> callback) list"
  have q: "queue_nonempty ?d" by (simp add: queue_nonempty_def ev)
  have ps: "parts ?d \<noteq> []" by (simp add: ev)
  \<comment> \<open>two commits, the second crossing the chunk size limit\<close>
  have ok: "fst (commit_all ?cs ?d) = None" by (simp add: ev)
  then have run: "commit_all ?cs ?d = (None, snd (commit_all ?cs ?d))"
    by (simp add: prod_eq_iff)
  have ne: "?cs \<noteq> []" by simp
  have pk: "list_all (\<lambda>(now, p, cb). \<not> Packet_empty p) ?cs" by (simp add: ev)
  have e: "Packet_empty (c_data (currentChunk (snd (commit_all ?cs ?d))))" by (simp add: ev)
  note main = C2_end_after_flush [OF run ne pk q ps, of 0]
  from main obtain d1 where "Domain_destroy (snd (commit_all ?cs ?d)) = Inr d1" "Domain_end d1 = 5"
    by (auto simp: ev)
  moreover from main e obtain d2 where "singleCommiter_sync (snd (commit_all ?cs ?d)) = Inr d2"
    "Domain_end d2 = 5"
    by (auto simp: ev)
  \<comment> \<open>one commit, then a stale chunk\<close>
  moreover have ok1: "fst (commit_all ?cs1 ?d) = None" by (simp add: ev)
  then have run1: "commit_all ?cs1 ?d = (None, snd (commit_all ?cs1 ?d))"
    by (simp add: prod_eq_iff)
  have ne1: "?cs1 \<noteq> []" by simp
  have pk1: "list_all (\<lambda>(now, p, cb). \<not> Packet_empty p) ?cs1" by (simp add: ev)
  have st: "fst (Domain_commitIfStale 20 (snd (commit_all ?cs1 ?d)))"
    by (simp add: ev Domain_commitIfStale_def Chunk_age_def)
  from C2_end_after_flush [OF run1 ne1 pk1 q ps, of 20] st
  obtain d3 where "singleCommiter_sync (snd (Domain_commitIfStale 20 (snd (commit_all ?cs1 ?d)))) = Inr d3"
    "Domain_end d3 = 2"
    by (auto simp: ev)
  ultimately show ?thesis using ok q ps e st by simp
qed

text \<open>
  The claim as stated fails when nothing flushes the chunk: one commit below the chunk size
  limit returns, the single writer has nothing to run, and \<open>end()\<close> is still 0 while the
  packet's \<open>to\<close> is 2.
\<close>

theorem C2_end_counterexample:
  "fst (commit_all [(3, mk_packet 2 2 [mk_entry 2 10], 0)] (Domain_at_rest cfg0 [segment 0 0] 0)) = None
   \<and> map_sum id Domain_end
        (singleCommiter_sync (snd (commit_all [(3, mk_packet 2 2 [mk_entry 2 10], 0)] (Domain_at_rest cfg0 [segment 0 0] 0))))
       = Inr 0
   \<and> r_to (p_range (mk_packet 2 2 [mk_entry 2 10])) = 2"
  by (simp add: ev singleCommiter_sync_def Domain_end_def)


subsection \<open>erase\<close>

lemma erase_loop_result:
  "erase_loop t rv ps j = (rv', ps', j') \<Longrightarrow> ps \<noteq> [] \<Longrightarrow>
     \<exists>removed. ps = removed @ ps' \<and> ps' \<noteq> []
       \<and> (\<forall>x\<in>set removed. r_to (dp_range (snd x)) < t)
       \<and> (tl ps' = [] \<or> t \<le> r_to (dp_range (snd (hd ps'))))"
proof (induction t rv ps j rule: erase_loop.induct)
  case (1 t retval k dp q ps j)
  show ?case
  proof (cases "r_to (dp_range dp) < t")
    case True
    with "1.prems" have run: "erase_loop t (retval \<and> fst (DomainPart_erase t dp)) (q # ps)
        (j @ (if retval then [PartErase k t] else []) @ [DirSync]) = (rv', ps', j')"
      by simp
    from "1.IH" [OF True run] obtain removed where
      r: "q # ps = removed @ ps'" "ps' \<noteq> []" "\<forall>x\<in>set removed. r_to (dp_range (snd x)) < t"
         "tl ps' = [] \<or> t \<le> r_to (dp_range (snd (hd ps')))"
      by auto
    have "(k, dp) # q # ps = ((k, dp) # removed) @ ps'" using r(1) by simp
    moreover have "\<forall>x\<in>set ((k, dp) # removed). r_to (dp_range (snd x)) < t"
      using r(3) True by simp
    ultimately show ?thesis using r(2,4) by blast
  next
    case False
    with "1.prems" have "ps' = (k, dp) # q # ps" by simp
    with False show ?thesis by (intro exI [of _ "[]"]) simp
  qed
qed (auto intro!: exI [of _ "[]"])

lemma range_bounds_append:
  "range_bounds (xs @ ys) = range_bounds xs @ range_bounds ys"
  by (simp add: range_bounds_def)

lemma range_bounds_Cons:
  "range_bounds ((k, dp) # ps) = r_from (dp_range dp) # r_to (dp_range dp) # range_bounds ps"
  by (simp add: range_bounds_def)

lemma range_bounds_mem:
  "x \<in> set ps \<Longrightarrow> r_from (dp_range (snd x)) \<in> set (range_bounds ps)
     \<and> r_to (dp_range (snd x)) \<in> set (range_bounds ps)"
  by (induction ps) (auto simp: range_bounds_def)

lemmas ev4 = Domain_at_rest_def segment_def DomainPart_new_def cfg0_def Domain_begin_def
  Domain_erase_def DomainPart_erase_def ranges_ordered_def range_bounds_def


text \<open>
  C4, as amended. On a non-empty map of segments in order, \<open>erase t\<close> returns; the map
  splits into the segments removed, all ending below \<open>t\<close>, and the segments kept, at least
  one, of which every one but the last ends at or above \<open>t\<close>; the first segment kept is
  truncated down to \<open>t\<close> when it ends at or above \<open>t\<close> (its range then starts at
  \<open>t\<close>, or where it started if that was later) and is left as it is otherwise.
  Afterwards \<open>begin()\<close> is at least its value before; it is at most \<open>t\<close> when the
  first segment kept started at or below \<open>t\<close>, and it is that segment's unchanged start
  when the segment started above \<open>t\<close>.
\<close>

theorem C4_erase_amended:
  assumes ne: "parts d \<noteq> []" and ord: "ranges_ordered (parts d)"
  shows "\<exists>rv d' removed k dp rest.
           Domain_erase t d = Inr (rv, d')
         \<and> parts d = removed @ (k, dp) # rest
         \<and> (\<forall>x\<in>set removed. r_to (dp_range (snd x)) < t)
         \<and> (\<forall>x\<in>set (butlast ((k, dp) # rest)). t \<le> r_to (dp_range (snd x)))
         \<and> parts d' = (k, if t \<le> r_to (dp_range dp)
                           then dp\<lparr>dp_range := \<lparr>r_from = max (r_from (dp_range dp)) t,
                                                 r_to = r_to (dp_range dp)\<rparr>\<rparr>
                           else dp) # rest
         \<and> Domain_begin d \<le> Domain_begin d'
         \<and> (r_from (dp_range dp) \<le> t \<longrightarrow> Domain_begin d' \<le> t)
         \<and> (t < r_from (dp_range dp) \<longrightarrow> Domain_begin d' = r_from (dp_range dp))"
proof -
  obtain rv ps' j' where run: "erase_loop t True (parts d) (journal d) = (rv, ps', j')"
    by (cases "erase_loop t True (parts d) (journal d)") auto
  from erase_loop_result [OF run ne] obtain removed where
    r: "parts d = removed @ ps'" "ps' \<noteq> []" "\<forall>x\<in>set removed. r_to (dp_range (snd x)) < t"
       "tl ps' = [] \<or> t \<le> r_to (dp_range (snd (hd ps')))"
    by auto
  obtain k dp rest where ps': "ps' = (k, dp) # rest"
    using r(2) by (cases ps') auto
  have sorted: "sorted (range_bounds removed @ r_from (dp_range dp) # r_to (dp_range dp) # range_bounds rest)"
    using ord r(1) ps' by (simp add: ranges_ordered_def range_bounds_append range_bounds_Cons)
  have wf: "r_from (dp_range dp) \<le> r_to (dp_range dp)"
    using sorted by (simp add: sorted_append)
  have later: "\<forall>x\<in>set rest. r_to (dp_range dp) \<le> r_to (dp_range (snd x))"
    using sorted range_bounds_mem [of _ rest] by (auto simp: sorted_append)
  have begin_le: "Domain_begin d \<le> r_from (dp_range dp)"
  proof (cases removed)
    case Nil
    then show ?thesis using r(1) ps' by (simp add: Domain_begin_def)
  next
    case (Cons a as)
    then have "r_from (dp_range (snd a)) \<in> set (range_bounds removed)"
      using range_bounds_mem [of a removed] by simp
    then have "r_from (dp_range (snd a)) \<le> r_from (dp_range dp)"
      using sorted by (auto simp: sorted_append)
    then show ?thesis using r(1) Cons by (auto simp: Domain_begin_def split: prod.splits)
  qed
  have kept: "\<forall>x\<in>set (butlast ((k, dp) # rest)). t \<le> r_to (dp_range (snd x))"
  proof (cases "rest = []")
    case True
    then show ?thesis by simp
  next
    case False
    then have "t \<le> r_to (dp_range dp)" using r(4) ps' by simp
    then show ?thesis using later by (auto dest!: in_set_butlastD)
  qed
  show ?thesis
  proof (cases "t \<le> r_to (dp_range dp)")
    case True
    let ?d' = "d\<lparr>parts := (k, snd (DomainPart_erase t dp)) # rest, journal := j' @ [PartErase k t]\<rparr>"
    have e: "Domain_erase t d = Inr (rv, ?d')"
      using run ps' True by (simp add: Domain_erase_def)
    have p: "parts ?d' = (k, dp\<lparr>dp_range := \<lparr>r_from = max (r_from (dp_range dp)) t,
                                               r_to = r_to (dp_range dp)\<rparr>\<rparr>) # rest"
      using True by (simp add: DomainPart_erase_def)
    have b: "Domain_begin ?d' = max (r_from (dp_range dp)) t" using p by (simp add: Domain_begin_def)
    have b1: "Domain_begin d \<le> Domain_begin ?d'" using b begin_le by (simp add: max.coboundedI1)
    have b2: "r_from (dp_range dp) \<le> t \<longrightarrow> Domain_begin ?d' \<le> t" using b by simp
    have b3: "t < r_from (dp_range dp) \<longrightarrow> Domain_begin ?d' = r_from (dp_range dp)"
      using b by (auto simp: max_def)
    show ?thesis
      using e r(1) r(3) kept p b1 b2 b3 True ps'
      by (intro exI [of _ rv] exI [of _ ?d'] exI [of _ removed] exI [of _ k] exI [of _ dp]
          exI [of _ rest]) simp
  next
    case False
    let ?d' = "d\<lparr>parts := (k, dp) # rest, journal := j'\<rparr>"
    have e: "Domain_erase t d = Inr (rv, ?d')"
      using run ps' False by (simp add: Domain_erase_def)
    have b: "Domain_begin ?d' = r_from (dp_range dp)" by (simp add: Domain_begin_def)
    have "r_from (dp_range dp) \<le> t" using wf False by simp
    then show ?thesis
      using e r(1) r(3) kept b False ps' begin_le
      by (intro exI [of _ rv] exI [of _ ?d'] exI [of _ removed] exI [of _ k] exI [of _ dp]
          exI [of _ rest]) simp
  qed
qed

theorem C4_erase_amended_witness:
  "parts (Domain_at_rest cfg0 [segment 0 5, segment 6 10, segment 11 20] 20) \<noteq> []
   \<and> ranges_ordered (parts (Domain_at_rest cfg0 [segment 0 5, segment 6 10, segment 11 20] 20))
   \<and> (\<exists>rv d'. Domain_erase 8 (Domain_at_rest cfg0 [segment 0 5, segment 6 10, segment 11 20] 20) = Inr (rv, d')
         \<and> Domain_begin d' \<le> 8
         \<and> Domain_begin (Domain_at_rest cfg0 [segment 0 5, segment 6 10, segment 11 20] 20) \<le> Domain_begin d')
   \<and> map_sum id (\<lambda>r. (fst r, map fst (parts (snd r)), Domain_begin (snd r)))
        (Domain_erase 8 (Domain_at_rest cfg0 [segment 0 5, segment 6 10, segment 11 20] 20))
       = Inr (True, [6, 11], 8)
   \<and> map_sum id (\<lambda>r. (fst r, map fst (parts (snd r)), Domain_begin (snd r)))
        (Domain_erase 3 (Domain_at_rest cfg0 [segment 6 10, segment 11 20] 20))
       = Inr (True, [6, 11], 6)"
proof -
  let ?d = "Domain_at_rest cfg0 [segment 0 5, segment 6 10, segment 11 20] 20"
  have ne: "parts ?d \<noteq> []" by (simp add: ev4)
  have ord: "ranges_ordered (parts ?d)" by (simp add: ev4)
  have run: "map_sum id (\<lambda>r. (fst r, map fst (parts (snd r)), Domain_begin (snd r)))
        (Domain_erase 8 ?d) = Inr (True, [6, 11], 8)"
    by (simp add: ev4)
  from C4_erase_amended [OF ne ord, of 8]
  obtain rv d' removed k dp rest where
    e: "Domain_erase 8 ?d = Inr (rv, d')"
    and split: "parts ?d = removed @ (k, dp) # rest"
    and kept: "parts d' = (k, if 8 \<le> r_to (dp_range dp)
                           then dp\<lparr>dp_range := \<lparr>r_from = max (r_from (dp_range dp)) 8,
                                                 r_to = r_to (dp_range dp)\<rparr>\<rparr>
                           else dp) # rest"
    and lower: "Domain_begin ?d \<le> Domain_begin d'"
    and upper: "r_from (dp_range dp) \<le> 8 \<longrightarrow> Domain_begin d' \<le> 8"
    by blast
  from e run have keys: "map fst (parts d') = [6, 11]" by simp
  with kept have "k = 6" "length rest = 1" by (auto simp: map_eq_Cons_conv)
  with split have "(k, dp) = segment 6 10"
    by (auto simp: ev4 append_eq_Cons_conv Cons_eq_append_conv)
  then have "r_from (dp_range dp) \<le> 8" by (simp add: ev4)
  with upper have "Domain_begin d' \<le> 8" by simp
  with e lower have "\<exists>rv d'. Domain_erase 8 ?d = Inr (rv, d') \<and> Domain_begin d' \<le> 8
          \<and> Domain_begin ?d \<le> Domain_begin d'"
    by blast
  moreover have "map_sum id (\<lambda>r. (fst r, map fst (parts (snd r)), Domain_begin (snd r)))
        (Domain_erase 3 (Domain_at_rest cfg0 [segment 6 10, segment 11 20] 20))
       = Inr (True, [6, 11], 6)"
    by (simp add: ev4)
  ultimately show ?thesis using ne ord run by blast
qed

text \<open>
  The claim as stated fails for a \<open>t\<close> below the first range's start: the only segment
  is \<open>(10, 20)\<close>, and after \<open>erase 5\<close> \<open>begin()\<close> is still 10, above 5. No value
  is both at least 10 and at most 5.
\<close>

theorem C4_erase_counterexample:
  "Domain_begin (Domain_at_rest cfg0 [segment 10 20] 20) = 10
   \<and> map_sum id (\<lambda>r. Domain_begin (snd r)) (Domain_erase 5 (Domain_at_rest cfg0 [segment 10 20] 20)) = Inr 10
   \<and> \<not> (Domain_begin (Domain_at_rest cfg0 [segment 10 20] 20) \<le> 5)"
  by (simp add: ev4)

subsection \<open>scanDir\<close>

lemma digit_char_props:
  "d < 10 \<Longrightarrow> is_digit (digit_char d) \<and> digit_val (digit_char d) = d"
  by (simp add: is_digit_def digit_val_def digit_char_def)

lemma is_digit_not_sign:
  "is_digit c \<Longrightarrow> \<not> is_space c \<and> c \<noteq> CHR ''-'' \<and> c \<noteq> CHR ''+''"
  by (auto simp: is_digit_def is_space_def)

lemma is_digit_zero: "is_digit (CHR ''0'')" "digit_val (CHR ''0'') = 0"
  by (simp_all add: is_digit_def digit_val_def)

lemma dec_digits: "\<forall>c\<in>set (dec n). is_digit c"
proof (induction n rule: dec.induct)
  case (1 n)
  show ?case
  proof (cases "n < 10")
    case True
    then show ?thesis by (subst dec.simps) (simp add: digit_char_props)
  next
    case False
    with 1 show ?thesis by (subst dec.simps) (simp add: digit_char_props)
  qed
qed

lemma dec_nonempty: "dec n \<noteq> []"
  by (subst dec.simps) simp

lemma dec_value: "foldl (\<lambda>acc c. acc * 10 + digit_val c) 0 (dec n) = n"
proof (induction n rule: dec.induct)
  case (1 n)
  show ?case
  proof (cases "n < 10")
    case True
    then show ?thesis by (subst dec.simps) (simp add: digit_char_props)
  next
    case False
    with 1 show ?thesis by (subst dec.simps) (simp add: digit_char_props)
  qed
qed

lemma dec_length: "0 < k \<Longrightarrow> length (dec n) \<le> k \<longleftrightarrow> n < 10 ^ k"
proof (induction n arbitrary: k rule: dec.induct)
  case (1 n)
  show ?case
  proof (cases "n < 10")
    case True
    have "n < 10 ^ k"
    proof -
      have "(10::nat) ^ 1 \<le> 10 ^ k" using "1.prems" by (intro power_increasing) simp_all
      with True show ?thesis by simp
    qed
    moreover have "length (dec n) = 1" using True by (subst dec.simps) simp
    ultimately show ?thesis using "1.prems" by simp
  next
    case False
    have len: "length (dec n) = Suc (length (dec (n div 10)))"
      using False by (subst dec.simps) simp
    show ?thesis
    proof (cases k)
      case 0
      with "1.prems" show ?thesis by simp
    next
      case (Suc k')
      show ?thesis
      proof (cases "k' = 0")
        case True
        with Suc False len dec_nonempty [of "n div 10"] show ?thesis
          by (cases "dec (n div 10)") auto
      next
        case k': False
        then have "length (dec (n div 10)) \<le> k' \<longleftrightarrow> n div 10 < 10 ^ k'"
          using "1.IH" [OF False, of k'] by simp
        moreover have "n div 10 < 10 ^ k' \<longleftrightarrow> n < 10 ^ Suc k'"
          by (simp add: div_less_iff_less_mult mult.commute)
        ultimately show ?thesis using len Suc by simp
      qed
    qed
  qed
qed

lemma fmt_016_digits: "\<forall>c\<in>set (fmt_016 num). is_digit c"
  using dec_digits by (auto simp: fmt_016_def is_digit_zero)

lemma fmt_016_nonempty: "fmt_016 num \<noteq> []"
  by (simp add: fmt_016_def dec_nonempty)

lemma fmt_016_length: "length (fmt_016 num) = max 16 (length (dec (unat num)))"
  by (simp add: fmt_016_def)

lemma foldl_zeros:
  "foldl (\<lambda>acc c. acc * 10 + digit_val c) 0 (replicate k (CHR ''0'')) = 0"
  by (induction k) (simp_all add: is_digit_zero)

lemma fmt_016_value:
  "foldl (\<lambda>acc c. acc * 10 + digit_val c) 0 (fmt_016 num) = unat num"
  by (simp add: fmt_016_def foldl_zeros dec_value)

lemma strtoull_fmt_016: "strtoull (fmt_016 num) = num"
proof -
  let ?s = "fmt_016 num"
  have hd: "is_digit (hd ?s)" using fmt_016_digits fmt_016_nonempty hd_in_set by blast
  have s1: "dropWhile is_space ?s = ?s"
    using hd fmt_016_nonempty is_digit_not_sign by (cases ?s) auto
  have sign: "hd ?s \<noteq> CHR ''-''" "hd ?s \<noteq> CHR ''+''" using hd is_digit_not_sign by auto
  have tw: "takeWhile is_digit ?s = ?s" using fmt_016_digits by (simp add: takeWhile_eq_all_conv)
  have v: "foldl (\<lambda>acc c. acc * 10 + digit_val c) 0 (takeWhile is_digit ?s) = unat num"
    by (simp only: tw fmt_016_value)
  have "unat num < 2 ^ 64" using unsigned_less [where 'a = nat, of num] by simp
  then have lt: "\<not> 2 ^ 64 \<le> unat num" by simp
  have s2: "(if ?s \<noteq> [] \<and> (hd ?s = CHR ''-'' \<or> hd ?s = CHR ''+'') then tl ?s else ?s) = ?s"
    using sign by simp
  show ?thesis
    unfolding strtoull_def Let_def s1 s2 v using sign lt by simp
qed

lemma fmt_016_inj: "fmt_016 n = fmt_016 m \<Longrightarrow> n = m"
  by (metis strtoull_fmt_016)

lemma scan_entry_accepts: "scan_entry name (name @ ''-'' @ fmt_016 num) = Some num"
proof -
  have len: "16 \<le> length (fmt_016 num)" by (simp add: fmt_016_length)
  have nd: "name @ ''-'' @ fmt_016 num \<noteq> ''.''" "name @ ''-'' @ fmt_016 num \<noteq> ''..''"
    using len by (auto dest: arg_cong [where f = length])
  show ?thesis
    using nd by (simp add: scan_entry_def Let_def checkName_def strtoull_fmt_016 nth_append)
qed

lemma scan_entry_iff:
  "scan_entry name ename = Some num \<longleftrightarrow> ename = name @ ''-'' @ fmt_016 num"
proof
  assume "scan_entry name ename = Some num"
  then show "ename = name @ ''-'' @ fmt_016 num"
    by (auto simp: scan_entry_def Let_def checkName_def split: if_splits)
next
  assume "ename = name @ ''-'' @ fmt_016 num"
  then show "scan_entry name ename = Some num" using scan_entry_accepts by simp
qed

lemma scan_loop_set:
  "set (scan_loop name entries res) = set res \<union> {n. name @ ''-'' @ fmt_016 n \<in> set entries}"
proof (induction entries arbitrary: res)
  case Nil
  then show ?case by simp
next
  case (Cons e es)
  show ?case
  proof (cases "scan_entry name e")
    case None
    then have "\<forall>n. e \<noteq> name @ ''-'' @ fmt_016 n" using scan_entry_iff [of name e] by simp
    with None Cons show ?thesis by auto
  next
    case (Some n)
    then have e: "e = name @ ''-'' @ fmt_016 n"
      using scan_entry_iff [of name e n] by simp
    then have "\<forall>m. e = name @ ''-'' @ fmt_016 m \<longleftrightarrow> m = n"
      using fmt_016_inj by auto
    then have "{m. name @ ''-'' @ fmt_016 m \<in> set (e # es)}
                 = insert n {m. name @ ''-'' @ fmt_016 m \<in> set es}"
      by auto
    with Some Cons show ?thesis by simp

  qed
qed

lemma scan_loop_length:
  "length (scan_loop name entries res)
     = length res + length (filter (\<lambda>e. \<exists>n. e = name @ ''-'' @ fmt_016 n) entries)"
proof (induction entries arbitrary: res)
  case Nil
  then show ?case by simp
next
  case (Cons e es)
  show ?case
  proof (cases "scan_entry name e")
    case None
    then have "\<not> (\<exists>n. e = name @ ''-'' @ fmt_016 n)" using scan_entry_iff [of name e] by simp
    with None Cons show ?thesis by simp
  next
    case (Some n)
    then have "\<exists>n. e = name @ ''-'' @ fmt_016 n" using scan_entry_iff [of name e] by auto
    with Some Cons show ?thesis by simp
  qed
qed


text \<open>
  C8, as amended. The scan accepts a directory entry, and takes the number \<open>num\<close> from it,
  exactly when the entry is the domain name, then \<open>-\<close>, then \<open>num\<close> in decimal padded
  with zeros to at least 16 digits; that rendering parses back to \<open>num\<close> and has exactly 16
  digits exactly when \<open>num\<close> is below \<open>10^16\<close>. The result is sorted in ascending order,
  holds the numbers of the accepted entries and nothing else, one for each accepted entry.
\<close>

theorem C8_scanDir_amended:
  "(scan_entry name ename = Some num \<longleftrightarrow> ename = name @ ''-'' @ fmt_016 num)
   \<and> sorted (Domain_scanDir name entries)
   \<and> set (Domain_scanDir name entries) = {n. name @ ''-'' @ fmt_016 n \<in> set entries}
   \<and> length (Domain_scanDir name entries)
       = length (filter (\<lambda>e. \<exists>n. e = name @ ''-'' @ fmt_016 n) entries)
   \<and> strtoull (fmt_016 num) = num
   \<and> length (fmt_016 num) = max 16 (length (dec (unat num)))
   \<and> (length (fmt_016 num) = 16 \<longleftrightarrow> unat num < 10 ^ 16)"
proof -
  have l16: "length (fmt_016 num) = 16 \<longleftrightarrow> unat num < 10 ^ 16"
    using dec_length [of 16 "unat num"] by (auto simp: fmt_016_length)
  show ?thesis
    using l16
    by (simp add: scan_entry_iff Domain_scanDir_def strtoull_fmt_016 fmt_016_length
        scan_loop_set scan_loop_length)
qed

text \<open>
  The claim as stated fails for serials of 17 digits and more: the entry is accepted though
  the number after the dash is not a 16-digit one.
\<close>

lemma dec_17: "dec 10000000000000000 = ''10000000000000000''"
  by (simp add: dec.simps digit_char_def char_of_eq_iff)


theorem C8_scanDir_counterexample:
  "scan_entry ''d'' ''d-10000000000000000'' = Some 10000000000000000
   \<and> length (drop 2 ''d-10000000000000000'') = 17"
  by (simp add: scan_entry_def strtoull_def is_space_def is_digit_def digit_val_def checkName_def
      fmt_016_def dec_17 Let_def)

end
